theory Spec2Isabelle
  imports Main "HOL-Library.Multiset" "HOL-Library.Sublist"
    "HOL-Library.Char_ord" "HOL-Library.List_Lexorder"
begin

section \<open>Data model\<close>

text \<open>
  The source is \<^verbatim>\<open>split_tunneling.cordova.ts\<close>: a data-access module of two async
  functions over the plugin bridge, and the Lit component \<^verbatim>\<open>SplitTunnelingView\<close>.
  A JavaScript string is a \<open>string\<close>, text beyond ASCII as its UTF-8 bytes: between
  well-formed strings, one is a contiguous part of the other exactly when its bytes
  are. The interface \<^verbatim>\<open>AppInfo\<close> is a record.
\<close>

record AppInfo =
  packageName :: string
  label :: string

text \<open>A thrown value or the reason of a rejected promise.\<close>

datatype error = Error string

text \<open>
  The plugin bridge \<^verbatim>\<open>pluginExec\<close> is imported from another module: it takes a
  command name and the rest of its arguments and returns a promise of a string or of
  void. A settled promise is a sum, \<open>Inl\<close> the rejection.
\<close>

datatype native_value = VString string | VVoid

type_synonym settled = "error + native_value"

type_synonym bridge_call = "string \<times> string list list"

text \<open>
  What an \<^verbatim>\<open>await\<close> on a bridge promise resumes: the body of
  \<^verbatim>\<open>connectedCallback\<close> after \<^verbatim>\<open>getInstalledApps()\<close>, or the debounce timer's callback
  after \<^verbatim>\<open>setAllowedApps(packages)\<close>, which keeps its local \<^verbatim>\<open>packages\<close>.
\<close>

datatype continuation = AwaitGetInstalledApps | AwaitSetAllowedApps "string list"

record CustomEvent =
  eventType :: string
  bubbles :: bool
  composed :: bool
  detailPackages :: "string list"

text \<open>
  The component's fields, followed by the part of the browser it acts on: a clock in
  milliseconds, the pending timers (handle and due time), the number of timers created
  so far, the log of bridge invocations, the promises awaited (keyed by the index of
  their invocation in the log), the events dispatched and the console's error log.
  \<^verbatim>\<open>selectedApps\<close> is a JavaScript \<^verbatim>\<open>Set\<close>: its elements in insertion order.
\<close>

record view =
  initialSelectedApps :: "string list"
  apps :: "AppInfo list"
  selectedApps :: "string list"
  searchQuery :: string
  loading :: bool
  applyDebounceTimer :: "nat option"
  now :: nat
  timers :: "(nat \<times> nat) list"
  timersCreated :: nat
  calls :: "bridge_call list"
  awaiting :: "(nat \<times> continuation) list"
  events :: "CustomEvent list"
  consoleErrors :: "error list"

text \<open>The field initialisers of the class, for a given \<^verbatim>\<open>initialSelectedApps\<close> property.\<close>

definition new_view :: "string list \<Rightarrow> view" where
  "new_view initial =
     \<lparr> initialSelectedApps = initial, apps = [], selectedApps = [], searchQuery = [],
       loading = True, applyDebounceTimer = None, now = 0, timers = [],
       timersCreated = 0, calls = [], awaiting = [], events = [], consoleErrors = [] \<rparr>"

section \<open>JavaScript built-ins used by the source\<close>

subsection \<open>Set\<close>

definition Set_has :: "string list \<Rightarrow> string \<Rightarrow> bool" where
  "Set_has s x = (x \<in> set s)"

definition Set_add :: "string list \<Rightarrow> string \<Rightarrow> string list" where
  "Set_add s x = (if Set_has s x then s else s @ [x])"

definition Set_delete :: "string list \<Rightarrow> string \<Rightarrow> string list" where
  "Set_delete s x = filter (\<lambda>y. y \<noteq> x) s"

text \<open>\<^verbatim>\<open>new Set(iterable)\<close> adds the elements one by one.\<close>

definition Set_new :: "string list \<Rightarrow> string list" where
  "Set_new xs = fold (\<lambda>x s. Set_add s x) xs []"

subsection \<open>String.prototype.includes\<close>

fun String_includes :: "string \<Rightarrow> string \<Rightarrow> bool" where
  "String_includes [] q = (q = [])"
| "String_includes (c # s) q = (prefix q (c # s) \<or> String_includes s q)"

subsection \<open>Array.prototype.sort\<close>

text \<open>
  The sort is stable, and sorts by the comparator when the comparator is consistent.
  It is modelled by a stable insertion sort: an element goes before the first element
  that it does not compare greater than.
\<close>

fun sort_insert :: "('a \<Rightarrow> 'a \<Rightarrow> int) \<Rightarrow> 'a \<Rightarrow> 'a list \<Rightarrow> 'a list" where
  "sort_insert cmp x [] = [x]"
| "sort_insert cmp x (y # ys) =
     (if cmp x y \<le> 0 then x # y # ys else y # sort_insert cmp x ys)"

definition Array_sort :: "('a \<Rightarrow> 'a \<Rightarrow> int) \<Rightarrow> 'a list \<Rightarrow> 'a list" where
  "Array_sort cmp xs = foldr (sort_insert cmp) xs []"

subsection \<open>Timers\<close>

text \<open>\<^verbatim>\<open>setTimeout\<close> returns a fresh handle, an integer greater than zero.\<close>

definition setTimeout :: "nat \<Rightarrow> view \<Rightarrow> nat \<times> view" where
  "setTimeout delay w =
     (let h = Suc (timersCreated w)
      in (h, w\<lparr>timers := timers w @ [(h, now w + delay)], timersCreated := h\<rparr>))"

definition clearTimeout :: "nat \<Rightarrow> view \<Rightarrow> view" where
  "clearTimeout h w = w\<lparr>timers := filter (\<lambda>t. fst t \<noteq> h) (timers w)\<rparr>"

subsection \<open>try and catch\<close>

definition try_catch :: "error + 'a \<Rightarrow> (error \<Rightarrow> error + 'a) \<Rightarrow> error + 'a" where
  "try_catch body handler = (case body of Inl e \<Rightarrow> handler e | Inr x \<Rightarrow> Inr x)"

definition console_error :: "error \<Rightarrow> view \<Rightarrow> view" where
  "console_error e w = w\<lparr>consoleErrors := consoleErrors w @ [e]\<rparr>"

definition dispatchEvent :: "CustomEvent \<Rightarrow> view \<Rightarrow> view" where
  "dispatchEvent ev w = w\<lparr>events := events w @ [ev]\<rparr>"

section \<open>The data-access module\<close>

text \<open>
  Modelled from the spec: the plugin bridge \<^verbatim>\<open>pluginExec\<close>, imported from
  \<^verbatim>\<open>./plugin.cordova\<close>, is an external collaborator, "a function that marshals a
  method name and arguments to native code and returns a promise of a string or void,
  fails on native-side error". The model records the invocation and returns the
  promise, named by the index of the invocation in the log; how the promise settles
  is an input of the event loop.
\<close>

definition pluginExec :: "string \<Rightarrow> string list list \<Rightarrow> view \<Rightarrow> nat \<times> view" where
  "pluginExec cmd args w = (length (calls w), w\<lparr>calls := calls w @ [(cmd, args)]\<rparr>)"

text \<open>\<^verbatim>\<open>JSON.parse(result)\<close> converts its argument to a string first.\<close>

definition ToString :: "native_value \<Rightarrow> string" where
  "ToString v = (case v of VString s \<Rightarrow> s | VVoid \<Rightarrow> ''undefined'')"

text \<open>
  \<^verbatim>\<open>getInstalledApps\<close>: the invocation, and what the function returns once the bridge's
  promise has settled. \<open>JSON_parse\<close> is the built-in, a parameter here, returning a
  value of the declared type \<^verbatim>\<open>AppInfo[]\<close> or throwing.
\<close>

definition getInstalledApps_call :: "view \<Rightarrow> nat \<times> view" where
  "getInstalledApps_call w = pluginExec ''getInstalledApps'' [] w"

definition getInstalledApps_return ::
  "(string \<Rightarrow> error + AppInfo list) \<Rightarrow> settled \<Rightarrow> error + AppInfo list" where
  "getInstalledApps_return JSON_parse r =
     (case r of Inl e \<Rightarrow> Inl e | Inr result \<Rightarrow> JSON_parse (ToString result))"

definition setAllowedApps_call :: "string list \<Rightarrow> view \<Rightarrow> nat \<times> view" where
  "setAllowedApps_call packages w = pluginExec ''setAllowedApps'' [packages] w"

definition setAllowedApps_return :: "settled \<Rightarrow> settled" where
  "setAllowedApps_return r = r"

section \<open>The component\<close>

definition connectedCallback_start :: "view \<Rightarrow> view" where
  "connectedCallback_start w =
     (let w1 = w\<lparr>selectedApps := Set_new (initialSelectedApps w)\<rparr>;
          (p, w2) = getInstalledApps_call w1
      in w2\<lparr>awaiting := awaiting w2 @ [(p, AwaitGetInstalledApps)]\<rparr>)"

definition connectedCallback_resume ::
  "(string \<Rightarrow> error + AppInfo list) \<Rightarrow> (string \<Rightarrow> string \<Rightarrow> int) \<Rightarrow> settled \<Rightarrow> view
     \<Rightarrow> error + view" where
  "connectedCallback_resume JSON_parse localeCompare r w =
     (case try_catch
        (case getInstalledApps_return JSON_parse r of
           Inl e \<Rightarrow> Inl e
         | Inr l \<Rightarrow>
             Inr (w\<lparr>apps := Array_sort (\<lambda>a b. localeCompare (label a) (label b)) l\<rparr>))
        (\<lambda>e. Inr ((console_error e w)\<lparr>apps := []\<rparr>))
      of Inl e \<Rightarrow> Inl e
       | Inr w1 \<Rightarrow> Inr (w1\<lparr>loading := False\<rparr>))"


definition filteredApps :: "(string \<Rightarrow> string) \<Rightarrow> view \<Rightarrow> AppInfo list" where
  "filteredApps toLowerCase w =
     (let query = toLowerCase (searchQuery w)
      in if query \<noteq> []
         then filter (\<lambda>app. String_includes (toLowerCase (label app)) query \<or>
                             String_includes (toLowerCase (packageName app)) query) (apps w)
         else apps w)"


definition onSearchInput :: "string \<Rightarrow> view \<Rightarrow> view" where
  "onSearchInput v w = w\<lparr>searchQuery := v\<rparr>"

definition applyChanges :: "view \<Rightarrow> view" where
  "applyChanges w =
     (let w1 = (case applyDebounceTimer w of
                  None \<Rightarrow> w
                | Some h \<Rightarrow> if h \<noteq> 0 then clearTimeout h w else w);
          (h, w2) = setTimeout 500 w1
      in w2\<lparr>applyDebounceTimer := Some h\<rparr>)"

definition toggleApp :: "string \<Rightarrow> view \<Rightarrow> view" where
  "toggleApp p w =
     (let newSet = selectedApps w;
          newSet' = (if Set_has newSet p then Set_delete newSet p else Set_add newSet p)
      in applyChanges (w\<lparr>selectedApps := newSet'\<rparr>))"

text \<open>The callback given to \<^verbatim>\<open>setTimeout\<close>, up to its \<^verbatim>\<open>await\<close> and after it.\<close>

definition timerCallback_start :: "view \<Rightarrow> view" where
  "timerCallback_start w =
     (let packages = selectedApps w;
          (p, w1) = setAllowedApps_call packages w
      in w1\<lparr>awaiting := awaiting w1 @ [(p, AwaitSetAllowedApps packages)]\<rparr>)"

definition timerCallback_resume :: "string list \<Rightarrow> settled \<Rightarrow> view \<Rightarrow> error + view" where
  "timerCallback_resume packages r w =
     (case try_catch
        (case setAllowedApps_return r of Inl e \<Rightarrow> Inl e | Inr _ \<Rightarrow> Inr w)
        (\<lambda>e. Inr (console_error e w))
      of Inl e \<Rightarrow> Inl e
       | Inr w1 \<Rightarrow>
           Inr (dispatchEvent
                  \<lparr> eventType = ''AllowedAppsChanged'', bubbles = True, composed = True,
                    detailPackages = packages \<rparr> w1))"

section \<open>The event loop\<close>

text \<open>
  What can happen to a connected component: the element is connected, the user clicks
  a row, the user types in the search field, time passes, a bridge promise settles.
\<close>

datatype input =
    Connect
  | Toggle string
  | SearchInput string
  | Advance nat
  | Settle nat settled

definition timerFired :: "nat \<Rightarrow> view \<Rightarrow> view" where
  "timerFired h w = timerCallback_start (clearTimeout h w)"

text \<open>
  Time passing runs the callbacks of the timers that fall due, earliest first. The
  callback creates no timer, so the timers due are those pending at the start.
\<close>

definition advance :: "nat \<Rightarrow> view \<Rightarrow> view" where
  "advance dt w =
     (let t = now w + dt;
          due = sort_key snd (filter (\<lambda>x. snd x \<le> t) (timers w))
      in (fold (\<lambda>x. timerFired (fst x)) due w)\<lparr>now := t\<rparr>)"

definition settle ::
  "(string \<Rightarrow> error + AppInfo list) \<Rightarrow> (string \<Rightarrow> string \<Rightarrow> int) \<Rightarrow> nat \<Rightarrow> settled \<Rightarrow> view
     \<Rightarrow> view" where
  "settle JSON_parse localeCompare k r w =
     (case map_of (awaiting w) k of
        None \<Rightarrow> w
      | Some c \<Rightarrow>
          (let w1 = w\<lparr>awaiting := filter (\<lambda>x. fst x \<noteq> k) (awaiting w)\<rparr>
           in case (case c of
                      AwaitGetInstalledApps \<Rightarrow>
                        connectedCallback_resume JSON_parse localeCompare r w1
                    | AwaitSetAllowedApps packages \<Rightarrow> timerCallback_resume packages r w1)
              of Inl e \<Rightarrow> w1
               | Inr w2 \<Rightarrow> w2))"

definition step ::
  "(string \<Rightarrow> error + AppInfo list) \<Rightarrow> (string \<Rightarrow> string \<Rightarrow> int) \<Rightarrow> input \<Rightarrow> view \<Rightarrow> view" where
  "step JSON_parse localeCompare i w =
     (case i of
        Connect \<Rightarrow> connectedCallback_start w
      | Toggle p \<Rightarrow> toggleApp p w
      | SearchInput v \<Rightarrow> onSearchInput v w
      | Advance dt \<Rightarrow> advance dt w
      | Settle k r \<Rightarrow> settle JSON_parse localeCompare k r w)"

definition run ::
  "(string \<Rightarrow> error + AppInfo list) \<Rightarrow> (string \<Rightarrow> string \<Rightarrow> int) \<Rightarrow> input list \<Rightarrow> view \<Rightarrow> view" where
  "run JSON_parse localeCompare ins w = fold (step JSON_parse localeCompare) ins w"

text \<open>
  The states the component can be in: at most one timer is pending and the component
  holds its handle, a handle is greater than zero, the selection has no duplicates,
  and an awaited promise belongs to an invocation already made.
\<close>

definition view_inv :: "view \<Rightarrow> bool" where
  "view_inv w =
     ((timers w = [] \<or>
       (applyDebounceTimer w \<noteq> None \<and> applyDebounceTimer w \<noteq> Some 0 \<and>
        map (\<lambda>t. Some (fst t)) (timers w) = [applyDebounceTimer w])) \<and>
      distinct (selectedApps w) \<and>
      list_all (\<lambda>x. fst x < length (calls w)) (awaiting w))"

section \<open>Notions used to state the properties\<close>






text \<open>
  A comparator the sort can rely on: any two strings are comparable, and the order
  is transitive.
\<close>

definition consistent_comparator :: "(string \<Rightarrow> string \<Rightarrow> int) \<Rightarrow> bool" where
  "consistent_comparator cmp =
     ((\<forall>a b. 0 < cmp a b \<longrightarrow> cmp b a \<le> 0) \<and>
      (\<forall>a b c. cmp a b \<le> 0 \<longrightarrow> cmp b c \<le> 0 \<longrightarrow> cmp a c \<le> 0))"

definition ascending_by_label :: "(string \<Rightarrow> string \<Rightarrow> int) \<Rightarrow> AppInfo list \<Rightarrow> bool" where
  "ascending_by_label cmp l = sorted_wrt (\<lambda>a b. cmp (label a) (label b) \<le> 0) l"

text \<open>
  A burst of toggles: a first click, then further clicks, each after a gap in
  milliseconds.
\<close>

definition burst :: "string \<Rightarrow> (nat \<times> string) list \<Rightarrow> input list" where
  "burst p rest = Toggle p # concat (map (\<lambda>x. [Advance (fst x), Toggle (snd x)]) rest)"

definition is_Settle :: "input \<Rightarrow> bool" where
  "is_Settle i = (case i of Settle k r \<Rightarrow> True | _ \<Rightarrow> False)"

definition AllowedAppsChanged :: "string list \<Rightarrow> CustomEvent" where
  "AllowedAppsChanged packages =
     \<lparr> eventType = ''AllowedAppsChanged'', bubbles = True, composed = True,
       detailPackages = packages \<rparr>"

section \<open>Concrete built-ins for the examples\<close>

text \<open>Lower case of the ASCII letters, the other characters unchanged.\<close>

definition ascii_lower :: "char \<Rightarrow> char" where
  "ascii_lower c =
     (case map_of (zip ''ABCDEFGHIJKLMNOPQRSTUVWXYZ'' ''abcdefghijklmnopqrstuvwxyz'') c of
        None \<Rightarrow> c
      | Some d \<Rightarrow> d)"

definition ascii_toLowerCase :: "string \<Rightarrow> string" where
  "ascii_toLowerCase s = map ascii_lower s"















text \<open>Comparison by character codes.\<close>

definition codeCompare :: "string \<Rightarrow> string \<Rightarrow> int" where
  "codeCompare a b = (if a < b then - 1 else if a = b then 0 else 1)"

text \<open>A parser that knows one document.\<close>

definition maps_app :: AppInfo where
  "maps_app = \<lparr> packageName = ''com.example.maps'', label = ''Maps'' \<rparr>"

definition chat_app :: AppInfo where
  "chat_app = \<lparr> packageName = ''org.example.chat'', label = ''Chat'' \<rparr>"

definition mail_app :: AppInfo where
  "mail_app = \<lparr> packageName = ''com.example.mail'', label = ''Mail'' \<rparr>"

definition parse_example :: "string \<Rightarrow> error + AppInfo list" where
  "parse_example s =
     (if s = ''[maps,chat,mail]'' then Inr [maps_app, chat_app, mail_app]
      else Inl (Error ''SyntaxError''))"

section \<open>Selection\<close>

lemma set_Set_delete: "set (Set_delete s x) = set s - {x}"
  by (auto simp: Set_delete_def)

lemma set_Set_add: "set (Set_add s x) = insert x (set s)"
  by (auto simp: Set_add_def Set_has_def)

lemma distinct_Set_delete: "distinct s \<Longrightarrow> distinct (Set_delete s x)"
  by (simp add: Set_delete_def)

lemma distinct_Set_add: "distinct s \<Longrightarrow> distinct (Set_add s x)"
  by (simp add: Set_add_def Set_has_def)

lemma selectedApps_applyChanges: "selectedApps (applyChanges w) = selectedApps w"
  by (simp add: applyChanges_def setTimeout_def clearTimeout_def Let_def
      split: option.splits)

lemma selectedApps_toggleApp:
  "selectedApps (toggleApp p w) =
     (if Set_has (selectedApps w) p then Set_delete (selectedApps w) p
      else Set_add (selectedApps w) p)"
  by (simp add: toggleApp_def Let_def selectedApps_applyChanges)


lemma distinct_fold_Set_add: "distinct s \<Longrightarrow> distinct (fold (\<lambda>x s. Set_add s x) xs s)"
  by (induction xs arbitrary: s) (simp_all add: distinct_Set_add)

lemma distinct_Set_new: "distinct (Set_new xs)"
  by (simp add: Set_new_def distinct_fold_Set_add)

section \<open>Timers\<close>

lemma view_inv_timers:
  assumes "view_inv w"
  shows "timers w = [] \<or>
         (\<exists>h d. h \<noteq> 0 \<and> applyDebounceTimer w = Some h \<and> timers w = [(h, d)])"
proof (cases "timers w")
  case Nil
  then show ?thesis by simp
next
  case (Cons t ts)
  with assms obtain h where h: "applyDebounceTimer w = Some h" "h \<noteq> 0" "map fst (timers w) = [h]"
    by (cases "applyDebounceTimer w") (auto simp: view_inv_def)
  with Cons have "timers w = [(h, snd t)]" by auto
  with h show ?thesis by blast
qed

lemma applyChanges_inv:
  assumes "view_inv w"
  shows "applyChanges w =
           w\<lparr>timers := [(Suc (timersCreated w), now w + 500)],
             timersCreated := Suc (timersCreated w),
             applyDebounceTimer := Some (Suc (timersCreated w))\<rparr>"
proof -
  from view_inv_timers [OF assms] show ?thesis
  proof
    assume "timers w = []"
    then show ?thesis
      by (simp add: applyChanges_def setTimeout_def clearTimeout_def Let_def
          split: option.splits)
  next
    assume "\<exists>h d. h \<noteq> 0 \<and> applyDebounceTimer w = Some h \<and> timers w = [(h, d)]"
    then obtain h d where "h \<noteq> 0" "applyDebounceTimer w = Some h" "timers w = [(h, d)]"
      by blast
    then show ?thesis
      by (simp add: applyChanges_def setTimeout_def clearTimeout_def Let_def)
  qed
qed

lemma toggleApp_inv:
  assumes "view_inv w"
  shows "toggleApp p w =
           w\<lparr>selectedApps := (if Set_has (selectedApps w) p then Set_delete (selectedApps w) p
                               else Set_add (selectedApps w) p),
             timers := [(Suc (timersCreated w), now w + 500)],
             timersCreated := Suc (timersCreated w),
             applyDebounceTimer := Some (Suc (timersCreated w))\<rparr>"
proof -
  let ?w = "w\<lparr>selectedApps := (if Set_has (selectedApps w) p then Set_delete (selectedApps w) p
                               else Set_add (selectedApps w) p)\<rparr>"
  from assms have "view_inv ?w"
    by (simp add: view_inv_def distinct_Set_add distinct_Set_delete)
  from applyChanges_inv [OF this] show ?thesis
    by (simp add: toggleApp_def Let_def)
qed

lemma view_inv_toggleApp: "view_inv w \<Longrightarrow> view_inv (toggleApp p w)"
  by (simp add: toggleApp_inv) (simp add: view_inv_def distinct_Set_add distinct_Set_delete)

lemma timerFired_eq:
  "timerFired h w =
     w\<lparr>timers := filter (\<lambda>t. fst t \<noteq> h) (timers w),
       calls := calls w @ [(''setAllowedApps'', [selectedApps w])],
       awaiting := awaiting w @ [(length (calls w), AwaitSetAllowedApps (selectedApps w))]\<rparr>"
  by (simp add: timerFired_def timerCallback_start_def setAllowedApps_call_def
      pluginExec_def clearTimeout_def Let_def)

lemma advance_idle:
  assumes "timers w = [] \<or> (\<exists>h d. timers w = [(h, d)] \<and> now w + dt < d)"
  shows "advance dt w = w\<lparr>now := now w + dt\<rparr>"
  using assms by (auto simp: advance_def Let_def)

lemma advance_due:
  assumes "timers w = [(h, d)]" and "d \<le> now w + dt"
  shows "advance dt w =
           w\<lparr>timers := [],
             calls := calls w @ [(''setAllowedApps'', [selectedApps w])],
             awaiting := awaiting w @ [(length (calls w), AwaitSetAllowedApps (selectedApps w))],
             now := now w + dt\<rparr>"
  using assms by (simp add: advance_def Let_def timerFired_eq)

lemma view_inv_advance:
  assumes "view_inv w"
  shows "view_inv (advance dt w)"
proof -
  from view_inv_timers [OF assms] consider
      "timers w = []"
    | h d where "timers w = [(h, d)]" "now w + dt < d"
    | h d where "timers w = [(h, d)]" "d \<le> now w + dt"
    by (metis not_le)
  then show ?thesis
  proof cases
    case 1
    then have "advance dt w = w\<lparr>now := now w + dt\<rparr>" by (simp add: advance_idle)
    with assms show ?thesis by (simp add: view_inv_def)
  next
    case 2
    then have "advance dt w = w\<lparr>now := now w + dt\<rparr>" by (simp add: advance_idle)
    with assms show ?thesis by (simp add: view_inv_def)
  next
    case 3
    from advance_due [OF 3] assms show ?thesis
      by (auto simp: view_inv_def list_all_iff)
  qed
qed

section \<open>Promises\<close>

lemma map_of_fresh:
  "list_all (\<lambda>x. fst x < n) xs \<Longrightarrow> map_of (xs @ [(n :: nat, c)]) n = Some c"
  by (induction xs) auto

lemma filter_fresh:
  "list_all (\<lambda>x. fst x < n) xs \<Longrightarrow> filter (\<lambda>x. fst x \<noteq> n) (xs @ [(n :: nat, c)]) = xs"
  by (induction xs) auto

lemma map_of_kept: "map_of xs k = Some c \<Longrightarrow> map_of (xs @ ys) k = Some c"
  by (simp add: map_add_Some_iff)

lemma connectedCallback_start_eq:
  "connectedCallback_start w =
     w\<lparr>selectedApps := Set_new (initialSelectedApps w),
       calls := calls w @ [(''getInstalledApps'', [])],
       awaiting := awaiting w @ [(length (calls w), AwaitGetInstalledApps)]\<rparr>"
  by (simp add: connectedCallback_start_def getInstalledApps_call_def pluginExec_def Let_def)

lemma connectedCallback_resume_eq:
  "connectedCallback_resume P C r w =
     Inr ((case getInstalledApps_return P r of
             Inl e \<Rightarrow> (console_error e w)\<lparr>apps := []\<rparr>
           | Inr l \<Rightarrow> w\<lparr>apps := Array_sort (\<lambda>a b. C (label a) (label b)) l\<rparr>)
          \<lparr>loading := False\<rparr>)"
  by (simp add: connectedCallback_resume_def try_catch_def split: sum.splits)

lemma timerCallback_resume_eq:
  "timerCallback_resume packages r w =
     Inr (dispatchEvent (AllowedAppsChanged packages)
            (case r of Inl e \<Rightarrow> console_error e w | Inr v \<Rightarrow> w))"
  by (simp add: timerCallback_resume_def try_catch_def setAllowedApps_return_def
      AllowedAppsChanged_def split: sum.splits)

lemma settle_load:
  assumes "map_of (awaiting w) k = Some AwaitGetInstalledApps"
  shows "connectedCallback_resume P C r (w\<lparr>awaiting := filter (\<lambda>x. fst x \<noteq> k) (awaiting w)\<rparr>)
           = Inr (settle P C k r w)"
  using assms by (simp add: settle_def connectedCallback_resume_eq Let_def)

lemma settle_push:
  assumes "map_of (awaiting w) k = Some (AwaitSetAllowedApps packages)"
  shows "timerCallback_resume packages r (w\<lparr>awaiting := filter (\<lambda>x. fst x \<noteq> k) (awaiting w)\<rparr>)
           = Inr (settle P C k r w)"
  using assms by (simp add: settle_def timerCallback_resume_eq Let_def)

lemma view_inv_connect: "view_inv w \<Longrightarrow> view_inv (connectedCallback_start w)"
  by (auto simp: connectedCallback_start_eq view_inv_def distinct_Set_new list_all_iff)

lemma view_inv_settle:
  assumes "view_inv w"
  shows "view_inv (settle P C k r w)"
proof (cases "map_of (awaiting w) k")
  case None
  with assms show ?thesis by (simp add: settle_def)
next
  case (Some c)
  from assms have inv: "view_inv (w\<lparr>awaiting := filter (\<lambda>x. fst x \<noteq> k) (awaiting w)\<rparr>)"
    by (auto simp: view_inv_def list_all_iff)
  show ?thesis
  proof (cases c)
    case AwaitGetInstalledApps
    with Some inv show ?thesis
      by (auto simp: settle_def connectedCallback_resume_eq Let_def view_inv_def
          console_error_def split: sum.splits)
  next
    case (AwaitSetAllowedApps packages)
    with Some inv show ?thesis
      by (auto simp: settle_def timerCallback_resume_eq Let_def view_inv_def
          console_error_def dispatchEvent_def split: sum.splits)
  qed
qed

lemma view_inv_new_view: "view_inv (new_view initial)"
  by (simp add: view_inv_def new_view_def)

lemma view_inv_step: "view_inv w \<Longrightarrow> view_inv (step P C i w)"
  by (cases i)
    (simp_all add: step_def view_inv_connect view_inv_toggleApp view_inv_advance
      view_inv_settle, simp add: onSearchInput_def view_inv_def)

lemma view_inv_run: "view_inv w \<Longrightarrow> view_inv (run P C ins w)"
  unfolding run_def by (induction ins arbitrary: w) (simp_all add: view_inv_step)

section \<open>What an input other than a settled promise leaves alone\<close>

lemma fold_timerFired_keeps:
  "events (fold (\<lambda>x. timerFired (fst x)) due w) = events w \<and>
   (map_of (awaiting w) k = Some c \<longrightarrow>
      map_of (awaiting (fold (\<lambda>x. timerFired (fst x)) due w)) k = Some c)"
proof (induction due arbitrary: w)
  case Nil
  show ?case by simp
next
  case (Cons x due)
  have "events (timerFired (fst x) w) = events w"
    by (simp add: timerFired_eq)
  moreover have "map_of (awaiting w) k = Some c \<Longrightarrow>
      map_of (awaiting (timerFired (fst x) w)) k = Some c"
    by (simp add: timerFired_eq map_of_kept del: map_of_append)
  ultimately show ?case using Cons.IH [of "timerFired (fst x) w"] by simp
qed

lemma step_keeps:
  assumes "\<not> is_Settle i"
  shows "events (step P C i w) = events w \<and>
         (map_of (awaiting w) k = Some c \<longrightarrow> map_of (awaiting (step P C i w)) k = Some c)"
proof (cases i)
  case Connect
  then show ?thesis
    by (simp add: step_def connectedCallback_start_eq map_of_kept del: map_of_append)
next
  case (Toggle p)
  then show ?thesis
    by (simp add: step_def toggleApp_def applyChanges_def setTimeout_def clearTimeout_def
        Let_def split: option.splits)
next
  case (SearchInput v)
  then show ?thesis by (simp add: step_def onSearchInput_def)
next
  case (Advance dt)
  then show ?thesis
    using fold_timerFired_keeps [of _ w k c]
    by (simp add: step_def advance_def Let_def)
next
  case (Settle k' r)
  with assms show ?thesis by (simp add: is_Settle_def)
qed

lemma run_keeps:
  assumes "list_all (\<lambda>i. \<not> is_Settle i) ins"
  shows "events (run P C ins w) = events w \<and>
         (map_of (awaiting w) k = Some c \<longrightarrow> map_of (awaiting (run P C ins w)) k = Some c)"
  using assms unfolding run_def
proof (induction ins arbitrary: w)
  case Nil
  show ?case by simp
next
  case (Cons i ins)
  then have "\<not> is_Settle i" and rest: "list_all (\<lambda>i. \<not> is_Settle i) ins" by simp_all
  from step_keeps [OF this(1), of P C w k c] Cons.IH [OF rest, of "step P C i w"]
  show ?case by simp
qed

lemma step_Advance: "step P C (Advance dt) w = advance dt w"
  by (simp add: step_def)

lemma step_Settle: "step P C (Settle k r) w = settle P C k r w"
  by (simp add: step_def)

lemma settle_push_events:
  assumes "map_of (awaiting w) k = Some (AwaitSetAllowedApps packages)"
  shows "events (settle P C k r w) = events w @ [AllowedAppsChanged packages]"
proof -
  from settle_push [OF assms, of r P C]
  have "settle P C k r w =
          dispatchEvent (AllowedAppsChanged packages)
            (case r of
               Inl e \<Rightarrow> console_error e (w\<lparr>awaiting := filter (\<lambda>x. fst x \<noteq> k) (awaiting w)\<rparr>)
             | Inr v \<Rightarrow> w\<lparr>awaiting := filter (\<lambda>x. fst x \<noteq> k) (awaiting w)\<rparr>)"
    by (simp add: timerCallback_resume_eq)
  then show ?thesis
    by (simp add: dispatchEvent_def console_error_def split: sum.splits)
qed

lemma burst_rest:
  assumes "view_inv w" and "\<exists>h. timers w = [(h, now w + 500)]"
    and "list_all (\<lambda>x. fst x < 500) rest"
  shows "view_inv (run P C (concat (map (\<lambda>x. [Advance (fst x), Toggle (snd x)]) rest)) w) \<and>
         (\<exists>h. timers (run P C (concat (map (\<lambda>x. [Advance (fst x), Toggle (snd x)]) rest)) w) =
               [(h, now (run P C (concat (map (\<lambda>x. [Advance (fst x), Toggle (snd x)]) rest)) w) + 500)]) \<and>
         calls (run P C (concat (map (\<lambda>x. [Advance (fst x), Toggle (snd x)]) rest)) w) = calls w \<and>
         events (run P C (concat (map (\<lambda>x. [Advance (fst x), Toggle (snd x)]) rest)) w) = events w \<and>
         awaiting (run P C (concat (map (\<lambda>x. [Advance (fst x), Toggle (snd x)]) rest)) w) = awaiting w"
  using assms
proof (induction rest arbitrary: w)
  case Nil
  then show ?case by (simp add: run_def)
next
  case (Cons x rest)
  from Cons.prems obtain h where h: "timers w = [(h, now w + 500)]" by blast
  from Cons.prems have gap: "fst x < 500" and rest: "list_all (\<lambda>x. fst x < 500) rest"
    by simp_all
  let ?a = "advance (fst x) w"
  let ?t = "toggleApp (snd x) ?a"
  from h gap have a: "?a = w\<lparr>now := now w + fst x\<rparr>"
    by (intro advance_idle) simp
  have inv_a: "view_inv ?a" using Cons.prems(1) by (rule view_inv_advance)
  have inv_t: "view_inv ?t" using inv_a by (rule view_inv_toggleApp)
  have t: "?t = ?a\<lparr>selectedApps := (if Set_has (selectedApps ?a) (snd x)
                                       then Set_delete (selectedApps ?a) (snd x)
                                       else Set_add (selectedApps ?a) (snd x)),
                     timers := [(Suc (timersCreated ?a), now ?a + 500)],
                     timersCreated := Suc (timersCreated ?a),
                     applyDebounceTimer := Some (Suc (timersCreated ?a))\<rparr>"
    using inv_a by (rule toggleApp_inv)
  have timers_t: "\<exists>h. timers ?t = [(h, now ?t + 500)]"
    by (subst (1 2) t) simp
  have frame: "calls ?t = calls w" "events ?t = events w" "awaiting ?t = awaiting w"
    by (subst t, simp add: a)+
  have unfold: "run P C (concat (map (\<lambda>x. [Advance (fst x), Toggle (snd x)]) (x # rest))) w =
                run P C (concat (map (\<lambda>x. [Advance (fst x), Toggle (snd x)]) rest)) ?t"
    by (simp add: run_def step_def)
  from Cons.IH [OF inv_t timers_t rest] frame show ?case
    unfolding unfold by simp
qed

lemma burst_state:
  assumes "view_inv w" and "list_all (\<lambda>x. fst x < 500) rest"
  shows "view_inv (run P C (burst p rest) w) \<and>
         (\<exists>h. timers (run P C (burst p rest) w) = [(h, now (run P C (burst p rest) w) + 500)]) \<and>
         calls (run P C (burst p rest) w) = calls w \<and>
         events (run P C (burst p rest) w) = events w \<and>
         awaiting (run P C (burst p rest) w) = awaiting w"
proof -
  let ?t = "toggleApp p w"
  have inv_t: "view_inv ?t" using assms(1) by (rule view_inv_toggleApp)
  note t = toggleApp_inv [OF assms(1), of p]
  have timers_t: "\<exists>h. timers ?t = [(h, now ?t + 500)]"
    by (subst (1 2) t) simp
  have frame: "calls ?t = calls w" "events ?t = events w" "awaiting ?t = awaiting w"
    by (subst t, simp)+
  have unfold: "run P C (burst p rest) w =
                run P C (concat (map (\<lambda>x. [Advance (fst x), Toggle (snd x)]) rest)) ?t"
    by (simp add: run_def step_def burst_def)
  from burst_rest [OF inv_t timers_t assms(2), of P C] frame show ?thesis
    unfolding unfold by simp
qed

section \<open>Debounce\<close>

text \<open>
  Claim C1. In a state the component can be in, \<^verbatim>\<open>applyChanges\<close> leaves exactly one
  pending timer, the new one, due 500 ms later. After a burst of toggles, each less
  than 500 ms after the one before, the bridge has not been invoked and no event has
  been dispatched, and one timer is pending, due 500 ms after the last toggle. When
  500 ms or more then pass, the timer fires: the bridge is invoked once, with
  \<^verbatim>\<open>setAllowedApps\<close> and the selection as it stands then, and no timer is left. When
  that promise settles, whatever the user did in between and whether it resolved or
  rejected, the event \<^verbatim>\<open>AllowedAppsChanged\<close> is dispatched with that same package list.
\<close>

theorem debounce_single_push:
  assumes "view_inv w" and "list_all (\<lambda>x. fst x < 500) rest" and "500 \<le> dt"
    and "list_all (\<lambda>i. \<not> is_Settle i) ins"
  shows "let w1 = run P C (burst p rest) w;
             w2 = step P C (Advance dt) w1;
             w3 = step P C (Settle (length (calls w)) r) (run P C ins w2)
         in timers (applyChanges w) = [(Suc (timersCreated w), now w + 500)] \<and>
            calls w1 = calls w \<and> events w1 = events w \<and>
            (\<exists>h. timers w1 = [(h, now w1 + 500)]) \<and>
            calls w2 = calls w @ [(''setAllowedApps'', [selectedApps w1])] \<and>
            timers w2 = [] \<and> events w2 = events w \<and>
            events w3 = events w @ [AllowedAppsChanged (selectedApps w1)]"
proof -
  let ?w1 = "run P C (burst p rest) w"
  let ?w2 = "step P C (Advance dt) ?w1"
  let ?k = "length (calls w)"
  let ?w3 = "step P C (Settle ?k r) (run P C ins ?w2)"
  have first: "timers (applyChanges w) = [(Suc (timersCreated w), now w + 500)]"
    by (subst applyChanges_inv [OF assms(1)]) simp
  from burst_state [OF assms(1,2), of P C p]
  obtain h where w1: "timers ?w1 = [(h, now ?w1 + 500)]" "calls ?w1 = calls w"
      "events ?w1 = events w" "awaiting ?w1 = awaiting w"
    by blast
  from assms(3) have due: "now ?w1 + 500 \<le> now ?w1 + dt" by simp
  have w2: "?w2 = ?w1\<lparr>timers := [],
               calls := calls ?w1 @ [(''setAllowedApps'', [selectedApps ?w1])],
               awaiting := awaiting ?w1 @ [(length (calls ?w1), AwaitSetAllowedApps (selectedApps ?w1))],
               now := now ?w1 + dt\<rparr>"
    unfolding step_Advance using advance_due [OF w1(1) due] by simp
  have calls2: "calls ?w2 = calls w @ [(''setAllowedApps'', [selectedApps ?w1])]"
    by (subst w2) (simp add: w1)
  have timers2: "timers ?w2 = []" by (subst w2) simp
  have events2: "events ?w2 = events w" by (subst w2) (simp add: w1)
  have awaiting2: "awaiting ?w2 = awaiting w @ [(?k, AwaitSetAllowedApps (selectedApps ?w1))]"
    by (subst w2) (simp add: w1)
  from assms(1) have "list_all (\<lambda>x. fst x < ?k) (awaiting w)"
    by (simp add: view_inv_def)
  then have "map_of (awaiting ?w2) ?k = Some (AwaitSetAllowedApps (selectedApps ?w1))"
    unfolding awaiting2 by (rule map_of_fresh)
  with run_keeps [OF assms(4), of P C ?w2 ?k "AwaitSetAllowedApps (selectedApps ?w1)"]
  have kept: "events (run P C ins ?w2) = events ?w2"
    "map_of (awaiting (run P C ins ?w2)) ?k = Some (AwaitSetAllowedApps (selectedApps ?w1))"
    by simp_all
  have events3: "events ?w3 = events w @ [AllowedAppsChanged (selectedApps ?w1)]"
    unfolding step_Settle using settle_push_events [OF kept(2), of P C r]
    by (simp add: kept(1) events2)
  from first w1 calls2 timers2 events2 events3 show ?thesis
    unfolding Let_def by blast
qed

lemmas eval_defs =
  run_def step_def burst_def toggleApp_def applyChanges_def setTimeout_def clearTimeout_def
  advance_def timerFired_def timerCallback_start_def timerCallback_resume_def
  setAllowedApps_call_def setAllowedApps_return_def pluginExec_def settle_def try_catch_def
  console_error_def dispatchEvent_def onSearchInput_def Set_has_def Set_add_def
  Set_delete_def Set_new_def new_view_def connectedCallback_start_def
  connectedCallback_resume_def getInstalledApps_call_def getInstalledApps_return_def
  ToString_def Let_def

theorem debounce_single_push_witness:
  "events (step parse_example codeCompare (Settle 0 (Inl (Error ''native'')))
     (run parse_example codeCompare [SearchInput ''x'', Toggle ''c'']
        (step parse_example codeCompare (Advance 500)
           (run parse_example codeCompare (burst ''a'' [(100, ''b''), (499, ''a'')])
              (new_view [])))))
   = [AllowedAppsChanged [''b'']] \<and>
   calls (step parse_example codeCompare (Advance 500)
           (run parse_example codeCompare (burst ''a'' [(100, ''b''), (499, ''a'')])
              (new_view [])))
   = [(''setAllowedApps'', [[''b'']])]"
proof -
  have sel: "selectedApps (run parse_example codeCompare
               (burst ''a'' [(100, ''b''), (499, ''a'')]) (new_view [])) = [''b'']"
    by (simp add: eval_defs)
  have start: "calls (new_view []) = []" "events (new_view []) = []"
    by (simp_all add: new_view_def)
  have gaps: "list_all (\<lambda>x. fst x < 500) [(100 :: nat, ''b''), (499, ''a'')]"
    by simp
  have user: "list_all (\<lambda>i. \<not> is_Settle i) [SearchInput ''x'', Toggle ''c'']"
    by (simp add: is_Settle_def)
  from debounce_single_push [OF view_inv_new_view gaps order_refl user,
      of parse_example codeCompare "''a''" "[]" "Inl (Error ''native'')"]
  show ?thesis
    by (simp add: Let_def sel start)
qed

section \<open>Toggling\<close>

text \<open>
  Claim C2. \<^verbatim>\<open>toggleApp(p)\<close> gives the selection without \<open>p\<close> when \<open>p\<close> is selected and
  the selection with \<open>p\<close> added when it is not; the membership of every other package
  is unchanged.
\<close>

theorem toggleApp_membership:
  "set (selectedApps (toggleApp p w)) =
     (if p \<in> set (selectedApps w) then set (selectedApps w) - {p}
      else insert p (set (selectedApps w))) \<and>
   (\<forall>q. q \<noteq> p \<longrightarrow>
      Set_has (selectedApps (toggleApp p w)) q = Set_has (selectedApps w) q)"
  by (auto simp: selectedApps_toggleApp set_Set_delete set_Set_add Set_has_def)

theorem toggleApp_membership_witness:
  "selectedApps (toggleApp ''b'' ((new_view [])\<lparr>selectedApps := [''a'', ''b'', ''c'']\<rparr>)) = [''a'', ''c''] \<and>
   selectedApps (toggleApp ''d'' ((new_view [])\<lparr>selectedApps := [''a'', ''b'', ''c'']\<rparr>)) = [''a'', ''b'', ''c'', ''d''] \<and>
   Set_has (selectedApps (toggleApp ''b'' ((new_view [])\<lparr>selectedApps := [''a'', ''b'', ''c'']\<rparr>))) ''a''"
  using toggleApp_membership [of "''b''" "(new_view [])\<lparr>selectedApps := [''a'', ''b'', ''c'']\<rparr>"]
  by (simp add: selectedApps_toggleApp Set_has_def Set_delete_def Set_add_def new_view_def)


section \<open>Search\<close>


















section \<open>The data-access module\<close>

text \<open>
  Claim C4. \<^verbatim>\<open>getInstalledApps\<close> invokes the bridge with the command
  \<^verbatim>\<open>getInstalledApps\<close> and no argument, returns what \<^verbatim>\<open>JSON.parse\<close> gives for the
  string the bridge resolves with, and rejects with the bridge's error when the bridge
  rejects.
\<close>

theorem getInstalledApps_parses_bridge_result:
  "fst (getInstalledApps_call w) = length (calls w) \<and>
   snd (getInstalledApps_call w) = w\<lparr>calls := calls w @ [(''getInstalledApps'', [])]\<rparr> \<and>
   getInstalledApps_return JSON_parse (Inr (VString s)) = JSON_parse s \<and>
   getInstalledApps_return JSON_parse (Inl e) = Inl e"
  by (simp add: getInstalledApps_call_def getInstalledApps_return_def pluginExec_def
      ToString_def)

theorem getInstalledApps_parses_bridge_result_witness:
  "calls (snd (getInstalledApps_call (new_view []))) = [(''getInstalledApps'', [])] \<and>
   getInstalledApps_return parse_example (Inr (VString ''[maps,chat,mail]'')) =
     Inr [maps_app, chat_app, mail_app] \<and>
   getInstalledApps_return parse_example (Inl (Error ''native'')) = Inl (Error ''native'')"
  using getInstalledApps_parses_bridge_result [of "new_view []" parse_example
      "''[maps,chat,mail]''" "Error ''native''"]
  by (simp add: new_view_def parse_example_def)

text \<open>
  Claim C5. \<^verbatim>\<open>setAllowedApps(packages)\<close> invokes the bridge with the command
  \<^verbatim>\<open>setAllowedApps\<close> and that package list as its one argument, resolves with void when
  the bridge does, and rejects with the bridge's error when the bridge rejects.
\<close>

theorem setAllowedApps_forwards:
  "fst (setAllowedApps_call packages w) = length (calls w) \<and>
   snd (setAllowedApps_call packages w) =
     w\<lparr>calls := calls w @ [(''setAllowedApps'', [packages])]\<rparr> \<and>
   setAllowedApps_return (Inr VVoid) = Inr VVoid \<and>
   setAllowedApps_return (Inl e) = Inl e"
  by (simp add: setAllowedApps_call_def setAllowedApps_return_def pluginExec_def)

theorem setAllowedApps_forwards_witness:
  "calls (snd (setAllowedApps_call [''a'', ''b''] (new_view []))) =
     [(''setAllowedApps'', [[''a'', ''b'']])]"
  using setAllowedApps_forwards [of "[''a'', ''b'']" "new_view []"]
  by (simp add: new_view_def)

section \<open>Loading\<close>

lemma settle_load_eq:
  assumes "view_inv w"
  shows "run P C [Connect, Settle (length (calls w)) r] w =
           (case getInstalledApps_return P r of
              Inl e \<Rightarrow> (console_error e ((connectedCallback_start w)\<lparr>awaiting := awaiting w\<rparr>))
                         \<lparr>apps := []\<rparr>
            | Inr l \<Rightarrow> (connectedCallback_start w)
                         \<lparr>awaiting := awaiting w,
                           apps := Array_sort (\<lambda>a b. C (label a) (label b)) l\<rparr>)
           \<lparr>loading := False\<rparr>"
proof -
  let ?k = "length (calls w)"
  let ?c = "connectedCallback_start w"
  from assms have fresh: "list_all (\<lambda>x. fst x < ?k) (awaiting w)"
    by (simp add: view_inv_def)
  have aw: "awaiting ?c = awaiting w @ [(?k, AwaitGetInstalledApps)]"
    by (simp add: connectedCallback_start_eq)
  have found: "map_of (awaiting ?c) ?k = Some AwaitGetInstalledApps"
    unfolding aw using fresh by (rule map_of_fresh)
  have rest: "filter (\<lambda>x. fst x \<noteq> ?k) (awaiting ?c) = awaiting w"
    unfolding aw using fresh by (rule filter_fresh)
  have "run P C [Connect, Settle ?k r] w = settle P C ?k r ?c"
    by (simp add: run_def step_def)
  also from settle_load [OF found, of P C r]
  have "settle P C ?k r ?c =
          (case getInstalledApps_return P r of
             Inl e \<Rightarrow> (console_error e (?c\<lparr>awaiting := awaiting w\<rparr>))\<lparr>apps := []\<rparr>
           | Inr l \<Rightarrow> ?c\<lparr>awaiting := awaiting w,
                         apps := Array_sort (\<lambda>a b. C (label a) (label b)) l\<rparr>)
          \<lparr>loading := False\<rparr>"
    unfolding rest connectedCallback_resume_eq by (simp split: sum.splits)
  finally show ?thesis .
qed

text \<open>
  Claim C6. When the component is connected and the promise of \<^verbatim>\<open>getInstalledApps\<close>
  settles: the loading flag is false afterwards in every case; when
  \<^verbatim>\<open>getInstalledApps\<close> rejects, and so when the bridge does, the app list is empty and
  the error is logged; and the rest of \<^verbatim>\<open>connectedCallback\<close> never ends in an error.
\<close>

theorem load_failure_handled:
  assumes "view_inv w"
  shows "loading (run P C [Connect, Settle (length (calls w)) r] w) = False \<and>
         (\<forall>e. getInstalledApps_return P r = Inl e \<longrightarrow>
            apps (run P C [Connect, Settle (length (calls w)) r] w) = []) \<and>
         (\<forall>e. r = Inl e \<longrightarrow>
            apps (run P C [Connect, Settle (length (calls w)) r] w) = [] \<and>
            consoleErrors (run P C [Connect, Settle (length (calls w)) r] w) =
              consoleErrors w @ [e]) \<and>
         (\<forall>w0. \<exists>w1. connectedCallback_resume P C r w0 = Inr w1 \<and> loading w1 = False)"
proof -
  have resume: "\<forall>w0. \<exists>w1. connectedCallback_resume P C r w0 = Inr w1 \<and> loading w1 = False"
    by (simp add: connectedCallback_resume_eq)
  show ?thesis
    unfolding settle_load_eq [OF assms]
    using resume
    by (auto simp: getInstalledApps_return_def console_error_def connectedCallback_start_eq
        split: sum.splits)
qed

theorem load_failure_handled_witness:
  "loading (run parse_example codeCompare [Connect, Settle 0 (Inl (Error ''native''))]
             (new_view [''a''])) = False \<and>
   apps (run parse_example codeCompare [Connect, Settle 0 (Inl (Error ''native''))]
             (new_view [''a''])) = [] \<and>
   consoleErrors (run parse_example codeCompare [Connect, Settle 0 (Inl (Error ''native''))]
             (new_view [''a''])) = [Error ''native''] \<and>
   loading (run parse_example codeCompare [Connect, Settle 0 (Inr (VString ''{''))]
             (new_view [''a''])) = False"
proof -
  have start: "length (calls (new_view [''a''])) = 0" "consoleErrors (new_view [''a'']) = []"
    by (simp_all add: new_view_def)
  from load_failure_handled [OF view_inv_new_view, of parse_example codeCompare "[''a'']"
      "Inl (Error ''native'')"]
    load_failure_handled [OF view_inv_new_view, of parse_example codeCompare "[''a'']"
      "Inr (VString ''{'')"]
  show ?thesis by (simp add: start)
qed

section \<open>Sorting\<close>

lemma mset_sort_insert: "mset (sort_insert cmp x ys) = add_mset x (mset ys)"
  by (induction ys) simp_all

lemma set_sort_insert: "set (sort_insert cmp x ys) = insert x (set ys)"
  by (induction ys) auto

lemma sorted_sort_insert:
  assumes total: "\<And>a b. 0 < cmp a b \<Longrightarrow> cmp b a \<le> 0"
    and trans: "\<And>a b c. cmp a b \<le> 0 \<Longrightarrow> cmp b c \<le> 0 \<Longrightarrow> cmp a c \<le> 0"
    and sorted: "sorted_wrt (\<lambda>a b. cmp a b \<le> (0 :: int)) ys"
  shows "sorted_wrt (\<lambda>a b. cmp a b \<le> 0) (sort_insert cmp x ys)"
  using sorted
proof (induction ys)
  case Nil
  show ?case by simp
next
  case (Cons y ys)
  show ?case
  proof (cases "cmp x y \<le> 0")
    case True
    with Cons.prems trans [of x y] show ?thesis by auto
  next
    case False
    then have "cmp y x \<le> 0" using total [of x y] by simp
    with False Cons show ?thesis by (auto simp: set_sort_insert)
  qed
qed

lemma mset_Array_sort: "mset (Array_sort cmp xs) = mset xs"
  unfolding Array_sort_def by (induction xs) (simp_all add: mset_sort_insert)

lemma sorted_Array_sort:
  assumes total: "\<And>a b. 0 < cmp a b \<Longrightarrow> cmp b a \<le> 0"
    and trans: "\<And>a b c. cmp a b \<le> 0 \<Longrightarrow> cmp b c \<le> 0 \<Longrightarrow> cmp a c \<le> 0"
  shows "sorted_wrt (\<lambda>a b. cmp a b \<le> (0 :: int)) (Array_sort cmp xs)"
  unfolding Array_sort_def
proof (induction xs)
  case Nil
  show ?case by simp
next
  case (Cons x xs)
  from sorted_sort_insert [of cmp, OF total trans Cons] show ?case by simp
qed

lemma ascending_Array_sort:
  assumes "consistent_comparator C"
  shows "ascending_by_label C (Array_sort (\<lambda>a b. C (label a) (label b)) l)"
  unfolding ascending_by_label_def
proof (rule sorted_Array_sort)
  fix a b :: AppInfo
  assume "0 < C (label a) (label b)"
  with assms show "C (label b) (label a) \<le> 0" by (simp add: consistent_comparator_def)
next
  fix a b c :: AppInfo
  assume "C (label a) (label b) \<le> 0" "C (label b) (label c) \<le> 0"
  with assms show "C (label a) (label c) \<le> 0"
    unfolding consistent_comparator_def by blast
qed

lemma ascending_filter:
  "ascending_by_label C l \<Longrightarrow> ascending_by_label C (filter Q l)"
  by (simp add: ascending_by_label_def sorted_wrt_filter)

text \<open>
  Claim C8. With a consistent \<^verbatim>\<open>localeCompare\<close>: after a load that succeeds, the app
  list is the parsed list rearranged in ascending order of label, loading is over, and
  the list rendered, for any search query, is ascending by label as well.
\<close>

theorem loaded_apps_sorted:
  assumes "consistent_comparator C" and "view_inv w" and "JSON_parse s = Inr l"
  shows "ascending_by_label C
           (apps (run JSON_parse C [Connect, Settle (length (calls w)) (Inr (VString s))] w)) \<and>
         mset (apps (run JSON_parse C [Connect, Settle (length (calls w)) (Inr (VString s))] w))
           = mset l \<and>
         loading (run JSON_parse C [Connect, Settle (length (calls w)) (Inr (VString s))] w)
           = False \<and>
         ascending_by_label C
           (filteredApps toLowerCase
              (run JSON_parse C [Connect, Settle (length (calls w)) (Inr (VString s))] w))"
proof -
  let ?w = "run JSON_parse C [Connect, Settle (length (calls w)) (Inr (VString s))] w"
  from assms(3) have ret: "getInstalledApps_return JSON_parse (Inr (VString s)) = Inr l"
    by (simp add: getInstalledApps_return_def ToString_def)
  have apps: "apps ?w = Array_sort (\<lambda>a b. C (label a) (label b)) l"
    unfolding settle_load_eq [OF assms(2)] ret by simp
  have loading: "loading ?w = False"
    unfolding settle_load_eq [OF assms(2)] ret by simp
  have asc: "ascending_by_label C (apps ?w)"
    unfolding apps using assms(1) by (rule ascending_Array_sort)
  have "ascending_by_label C (filteredApps toLowerCase ?w)"
    unfolding filteredApps_def Let_def using asc by (simp add: ascending_filter)
  with asc loading show ?thesis by (simp add: apps mset_Array_sort)
qed

lemma consistent_codeCompare: "consistent_comparator codeCompare"
  by (auto simp: consistent_comparator_def codeCompare_def split: if_splits)

theorem loaded_apps_sorted_witness:
  "apps (run parse_example codeCompare [Connect, Settle 0 (Inr (VString ''[maps,chat,mail]''))]
           (new_view [])) = [chat_app, mail_app, maps_app] \<and>
   ascending_by_label codeCompare
     (apps (run parse_example codeCompare [Connect, Settle 0 (Inr (VString ''[maps,chat,mail]''))]
           (new_view [])))"
proof -
  have parse: "parse_example ''[maps,chat,mail]'' = Inr [maps_app, chat_app, mail_app]"
    by (simp add: parse_example_def)
  have start: "length (calls (new_view [])) = 0"
    by (simp add: new_view_def)
  have run: "apps (run parse_example codeCompare
                [Connect, Settle 0 (Inr (VString ''[maps,chat,mail]''))] (new_view []))
             = [chat_app, mail_app, maps_app]"
    by (simp add: eval_defs parse Array_sort_def codeCompare_def maps_app_def chat_app_def
        mail_app_def)
  from loaded_apps_sorted [where C = codeCompare and w = "new_view []"
      and JSON_parse = parse_example and s = "''[maps,chat,mail]''"
      and l = "[maps_app, chat_app, mail_app]" and toLowerCase = ascii_toLowerCase,
      OF consistent_codeCompare view_inv_new_view parse] run
  show ?thesis by (simp add: start)
qed

section \<open>Push\<close>

text \<open>
  Claim C10. After the \<^verbatim>\<open>await\<close> in the timer's callback, a rejection of
  \<^verbatim>\<open>setAllowedApps\<close> is caught and logged: the callback does not end in an error, and
  it dispatches \<^verbatim>\<open>AllowedAppsChanged\<close> with the package list it captured, the same
  event as when the promise resolves.
\<close>

theorem event_dispatched_despite_rejection:
  "(\<exists>w'. timerCallback_resume packages (Inl e) w = Inr w' \<and>
          events w' = events w @ [AllowedAppsChanged packages] \<and>
          consoleErrors w' = consoleErrors w @ [e]) \<and>
   detailPackages (AllowedAppsChanged packages) = packages \<and>
   (map_of (awaiting w) k = Some (AwaitSetAllowedApps packages) \<longrightarrow>
      events (step P C (Settle k (Inl e)) w) = events w @ [AllowedAppsChanged packages] \<and>
      events (step P C (Settle k (Inr VVoid)) w) = events w @ [AllowedAppsChanged packages])"
  by (simp add: timerCallback_resume_eq dispatchEvent_def console_error_def step_Settle
      settle_push_events AllowedAppsChanged_def)

theorem event_dispatched_despite_rejection_witness:
  "events (run parse_example codeCompare
             [Toggle ''a'', Toggle ''b'', Advance 500, Toggle ''c'',
              Settle 0 (Inl (Error ''native''))] (new_view []))
   = [AllowedAppsChanged [''a'', ''b'']]"
proof -
  let ?w = "run parse_example codeCompare [Toggle ''a'', Toggle ''b'', Advance 500, Toggle ''c'']
              (new_view [])"
  have aw: "map_of (awaiting ?w) 0 = Some (AwaitSetAllowedApps [''a'', ''b''])"
    by (simp add: eval_defs)
  have ev: "events ?w = []"
    by (simp add: eval_defs)
  have split: "run parse_example codeCompare
             [Toggle ''a'', Toggle ''b'', Advance 500, Toggle ''c'',
              Settle 0 (Inl (Error ''native''))] (new_view [])
        = step parse_example codeCompare (Settle 0 (Inl (Error ''native''))) ?w"
    by (simp add: run_def)
  from event_dispatched_despite_rejection [of "[''a'', ''b'']" "Error ''native''" ?w 0
      parse_example codeCompare] aw
  show ?thesis unfolding split by (simp add: ev)
qed

section \<open>Searching changes the query only\<close>

text \<open>
  Claim C7. \<^verbatim>\<open>onSearchInput\<close> sets the search query to the field's value and changes
  nothing else: the app list, the selection, the loading flag, the log of bridge
  invocations and the pending timers are as before.
\<close>

theorem onSearchInput_frame:
  "searchQuery (onSearchInput v w) = v \<and>
   (onSearchInput v w)\<lparr>searchQuery := searchQuery w\<rparr> = w \<and>
   apps (onSearchInput v w) = apps w \<and>
   selectedApps (onSearchInput v w) = selectedApps w \<and>
   loading (onSearchInput v w) = loading w \<and>
   calls (onSearchInput v w) = calls w \<and>
   timers (onSearchInput v w) = timers w \<and>
   applyDebounceTimer (onSearchInput v w) = applyDebounceTimer w \<and>
   step P C (SearchInput v) w = onSearchInput v w"
  by (simp add: onSearchInput_def step_def)

theorem onSearchInput_frame_witness:
  "onSearchInput ''ma'' (new_view [''a'']) = (new_view [''a''])\<lparr>searchQuery := ''ma''\<rparr> \<and>
   calls (onSearchInput ''ma'' (new_view [''a''])) = [] \<and>
   timers (onSearchInput ''ma'' (new_view [''a''])) = []"
  using onSearchInput_frame [of "''ma''" "new_view [''a'']" parse_example codeCompare]
  by (simp add: new_view_def onSearchInput_def)

section \<open>Toggling twice\<close>

text \<open>
  Claim C9. Toggling the same package twice in succession gives a selection with the
  members it had before.
\<close>

theorem toggleApp_twice:
  "set (selectedApps (toggleApp p (toggleApp p w))) = set (selectedApps w) \<and>
   Set_has (selectedApps (toggleApp p (toggleApp p w))) q = Set_has (selectedApps w) q"
  by (auto simp: selectedApps_toggleApp set_Set_delete set_Set_add Set_has_def)

theorem toggleApp_twice_witness:
  "set (selectedApps (toggleApp ''a'' (toggleApp ''a''
          ((new_view [])\<lparr>selectedApps := [''a'', ''b'']\<rparr>)))) = {''a'', ''b''} \<and>
   selectedApps (toggleApp ''a'' (toggleApp ''a''
          ((new_view [])\<lparr>selectedApps := [''a'', ''b'']\<rparr>))) = [''b'', ''a'']"
proof -
  have run: "selectedApps (toggleApp ''a'' (toggleApp ''a''
          ((new_view [])\<lparr>selectedApps := [''a'', ''b'']\<rparr>))) = [''b'', ''a'']"
    by (simp add: selectedApps_toggleApp Set_has_def Set_delete_def Set_add_def new_view_def)
  from toggleApp_twice [of "''a''" "(new_view [])\<lparr>selectedApps := [''a'', ''b'']\<rparr>" "''a''"]
  show ?thesis unfolding run by (simp add: new_view_def)
qed

end
